theory Spec2Isabelle
  imports Main "HOL-Library.Word"
begin

section \<open>The ring buffer of include/ringbuffer.h\<close>

text \<open>
  \<^verbatim>\<open>template <typename T, size_t capacity> class RingBuffer\<close> holds
  \<^verbatim>\<open>volatile value_type data[capacity]\<close> and two \<^verbatim>\<open>volatile size_t\<close> indices.
  The element type \<open>T\<close> is the type variable \<open>'a\<close>, \<^verbatim>\<open>size_t\<close> is a machine word
  \<open>'w word\<close> of any width (32 bits on the Cortex-M3 the library targets, 64 bits on the
  host that runs the unit tests), and the template parameter \<^verbatim>\<open>capacity\<close> is the first
  argument of every operation that uses it. All index arithmetic is word arithmetic and
  wraps modulo \<open>2 ^ LENGTH('w)\<close> as unsigned arithmetic in C++ does.

  In the source \<^verbatim>\<open>Push\<close> writes at \<^verbatim>\<open>tail\<close> and \<^verbatim>\<open>Pop\<close> reads at
  \<^verbatim>\<open>head\<close>: \<^verbatim>\<open>tail\<close> is the write index and \<^verbatim>\<open>head\<close> the read index
  (the two comments on the member declarations say the opposite).

  The storage is a list; \<^verbatim>\<open>data[i]\<close> is \<open>data rb ! unat i\<close>. C++ does not check
  the index, and an access outside the array is undefined there. The operations below are
  transcribed as they are written, without a check, and \<open>rb_inv\<close> states what makes
  every access they perform fall inside the array: the list has \<^verbatim>\<open>capacity\<close> slots
  and both indices are below \<^verbatim>\<open>capacity\<close>. It is proved to hold in every state the
  operations can reach from the constructor.
\<close>

record (overloaded) ('a, 'w) RingBuffer =
  data :: "'a list"
  head :: "'w word"
  tail :: "'w word"

text \<open>
  The constructor \<^verbatim>\<open>RingBuffer() : head(0), tail(0)\<close> leaves the storage
  uninitialised; \<open>mem\<close> is whatever the \<^verbatim>\<open>capacity\<close> slots hold at that moment.
\<close>

definition RingBuffer_new :: "'a list \<Rightarrow> ('a, 'w::len) RingBuffer" where
  "RingBuffer_new mem = \<lparr>data = mem, head = 0, tail = 0\<rparr>"

definition Reset :: "('a, 'w::len) RingBuffer \<Rightarrow> ('a, 'w) RingBuffer" where
  "Reset rb = rb\<lparr>head := 0, tail := 0\<rparr>"

definition increment :: "'w::len word \<Rightarrow> 'w word \<Rightarrow> 'w word" where
  "increment capacity idx = (idx + 1) mod capacity"

text \<open>
  \<^verbatim>\<open>Push\<close> returns its boolean result together with the buffer after the call.
  The \<^verbatim>\<open>memcpy\<close> into \<^verbatim>\<open>data[current_tail]\<close> is the list update.
\<close>

definition Push :: "'w::len word \<Rightarrow> 'a \<Rightarrow> ('a, 'w) RingBuffer \<Rightarrow> bool \<times> ('a, 'w) RingBuffer" where
  "Push capacity item rb =
     (let current_tail = tail rb;
          next_tail = increment capacity current_tail
      in if next_tail \<noteq> head rb
         then (True, rb\<lparr>data := (data rb)[unat current_tail := item], tail := next_tail\<rparr>)
         else (False, rb))"

text \<open>
  \<^verbatim>\<open>Pop\<close> takes the content of the caller's \<^verbatim>\<open>item\<close> before the call and returns
  the boolean result, the content of \<^verbatim>\<open>item\<close> after the call and the buffer after
  the call.
\<close>

definition Pop :: "'w::len word \<Rightarrow> 'a \<Rightarrow> ('a, 'w) RingBuffer \<Rightarrow> bool \<times> 'a \<times> ('a, 'w) RingBuffer" where
  "Pop capacity item rb =
     (let current_head = head rb
      in if current_head = tail rb
         then (False, item, rb)
         else (True, data rb ! unat current_head,
               rb\<lparr>head := increment capacity current_head\<rparr>))"

definition Size :: "'w::len word \<Rightarrow> ('a, 'w) RingBuffer \<Rightarrow> 'w word" where
  "Size capacity rb = (tail rb - head rb + capacity) mod capacity"

definition IsEmpty :: "('a, 'w::len) RingBuffer \<Rightarrow> bool" where
  "IsEmpty rb = (head rb = tail rb)"

definition IsFull :: "'w::len word \<Rightarrow> ('a, 'w) RingBuffer \<Rightarrow> bool" where
  "IsFull capacity rb = (increment capacity (tail rb) = head rb)"

section \<open>Instantiations, invariants and call sequences\<close>

text \<open>
  A \<^verbatim>\<open>RingBuffer<T, capacity>\<close> exists only for a capacity the compiler accepts.
  Capacity 0 is not one (an array of no elements, and a remainder by zero in
  \<^verbatim>\<open>increment\<close> and \<^verbatim>\<open>Size\<close>). The member \<^verbatim>\<open>data[capacity]\<close> is an object of
  at least \<^verbatim>\<open>capacity\<close> bytes, and no object is larger than \<^verbatim>\<open>PTRDIFF_MAX\<close>
  bytes, which is \<open>2 ^ (LENGTH('w) - 1) - 1\<close> where \<^verbatim>\<open>size_t\<close> has \<open>LENGTH('w)\<close>
  bits: GCC and Clang reject a larger array type. So every capacity of an existing buffer
  is below \<open>2 ^ (LENGTH('w) - 1)\<close>.
\<close>

definition instantiable :: "'w::len word \<Rightarrow> bool" where
  "instantiable capacity = (0 < capacity \<and> unat capacity < 2 ^ (LENGTH('w) - 1))"

text \<open>
  The occupancy as the specification writes it, over the integers:
  \<^verbatim>\<open>(write_index - read_index + N) mod N\<close>.
\<close>

definition spec_size :: "int \<Rightarrow> int \<Rightarrow> int \<Rightarrow> int" where
  "spec_size N read_index write_index = (write_index - read_index + N) mod N"

definition rb_inv :: "'w::len word \<Rightarrow> ('a, 'w) RingBuffer \<Rightarrow> bool" where
  "rb_inv capacity rb =
     (length (data rb) = unat capacity \<and> head rb < capacity \<and> tail rb < capacity)"

text \<open>
  The values the buffer holds, oldest first: the slots from the read index up to, not
  including, the write index, going round the end of the array.
\<close>

definition queued :: "('a, 'w::len) RingBuffer \<Rightarrow> 'a list" where
  "queued rb =
     (let h = unat (head rb); t = unat (tail rb)
      in if h \<le> t then drop h (take t (data rb))
         else drop h (data rb) @ take t (data rb))"

text \<open>
  A sequence of calls on one buffer, made one after the other. A session keeps the buffer,
  the consumer's variable that every \<^verbatim>\<open>Pop\<close> is given, the values of the
  \<^verbatim>\<open>Push\<close> calls that returned true, and the values that the \<^verbatim>\<open>Pop\<close> calls that
  returned true left in the consumer's variable, both in the order of the calls.
\<close>

datatype 'a call = CallPush 'a | CallPop | CallReset

record (overloaded) ('a, 'w) session =
  buf :: "('a, 'w) RingBuffer"
  consumer_item :: 'a
  accepted :: "'a list"
  delivered :: "'a list"

definition session_start :: "'a list \<Rightarrow> 'a \<Rightarrow> ('a, 'w::len) session" where
  "session_start mem x =
     \<lparr>buf = RingBuffer_new mem, consumer_item = x, accepted = [], delivered = []\<rparr>"

fun call_step :: "'w::len word \<Rightarrow> ('a, 'w) session \<Rightarrow> 'a call \<Rightarrow> ('a, 'w) session" where
  "call_step capacity s (CallPush v) =
     (case Push capacity v (buf s) of
        (ok, rb') \<Rightarrow> s\<lparr>buf := rb', accepted := (if ok then accepted s @ [v] else accepted s)\<rparr>)"
| "call_step capacity s CallPop =
     (case Pop capacity (consumer_item s) (buf s) of
        (ok, v, rb') \<Rightarrow>
          s\<lparr>buf := rb', consumer_item := v,
            delivered := (if ok then delivered s @ [v] else delivered s)\<rparr>)"
| "call_step capacity s CallReset = s\<lparr>buf := Reset (buf s)\<rparr>"

declare call_step.simps [simp del]

definition run :: "'w::len word \<Rightarrow> ('a, 'w) session \<Rightarrow> 'a call list \<Rightarrow> ('a, 'w) session" where
  "run capacity s calls = foldl (call_step capacity) s calls"

definition fifo_inv :: "'w::len word \<Rightarrow> ('a, 'w) session \<Rightarrow> bool" where
  "fifo_inv capacity s =
     (rb_inv capacity (buf s) \<and> accepted s = delivered s @ queued (buf s))"

text \<open>
  The number of values pushed with success and not yet popped with success, counted from
  the results of the calls alone: one more after a \<^verbatim>\<open>Push\<close> that returned true, one
  fewer after a \<^verbatim>\<open>Pop\<close> that returned true, and none after \<^verbatim>\<open>Reset\<close>, which
  discards whatever the buffer held. \<open>pending capacity s n calls\<close> is the count after
  \<open>calls\<close>, made from session \<open>s\<close> with count \<open>n\<close>.
\<close>

definition count_step :: "'w::len word \<Rightarrow> ('a, 'w) session \<Rightarrow> 'a call \<Rightarrow> int \<Rightarrow> int" where
  "count_step capacity s c n =
     (case c of
        CallPush v \<Rightarrow> (if fst (Push capacity v (buf s)) then n + 1 else n)
      | CallPop \<Rightarrow> (if fst (Pop capacity (consumer_item s) (buf s)) then n - 1 else n)
      | CallReset \<Rightarrow> 0)"

fun pending :: "'w::len word \<Rightarrow> ('a, 'w) session \<Rightarrow> int \<Rightarrow> 'a call list \<Rightarrow> int" where
  "pending capacity s n [] = n"
| "pending capacity s n (c # calls) =
     pending capacity (call_step capacity s c) (count_step capacity s c n) calls"

lemmas exec_simps = run_def call_step.simps session_start_def RingBuffer_new_def
  Push_def Pop_def Reset_def increment_def Size_def IsFull_def IsEmpty_def queued_def Let_def

lemmas count_simps = pending.simps count_step_def call_step.simps session_start_def
  RingBuffer_new_def Push_def Pop_def Reset_def increment_def Let_def

section \<open>Index arithmetic\<close>

lemma idx_eq_iff_unat: "(a = b) = (unat a = unat b)" for a b :: "'w::len word"
  by (simp add: word_unat_eq_iff)

lemma increment_less:
  "0 < capacity \<Longrightarrow> increment capacity idx < capacity"
  by (simp add: increment_def word_mod_less_divisor)

lemma unat_increment:
  fixes capacity idx :: "'w::len word"
  assumes "idx < capacity"
  shows "unat (increment capacity idx) = (if unat idx + 1 = unat capacity then 0 else unat idx + 1)"
proof -
  have lt: "unat idx < unat capacity" using assms by (simp add: word_less_nat_alt)
  have "unat capacity < 2 ^ LENGTH('w)" by (rule unsigned_less)
  with lt have "unat idx + 1 < 2 ^ LENGTH('w)" by arith
  then have "unat (idx + 1) = unat idx + 1"
    by (simp add: unat_word_ariths)
  then show ?thesis using lt by (simp add: increment_def unat_mod)
qed

lemma increment_capacity_1: "increment 1 idx = 0"
  by (simp add: increment_def)

lemma instantiable_pos: "instantiable capacity \<Longrightarrow> 0 < capacity"
  by (simp add: instantiable_def)

lemma unat_capacity_minus_1:
  "0 < capacity \<Longrightarrow> unat (capacity - 1) = unat capacity - 1" for capacity :: "'w::len word"
  by (simp add: unat_minus_one word_neq_0_conv)

lemma uint_Size:
  fixes capacity :: "'w::len word"
  assumes c: "instantiable capacity" and h: "head rb < capacity" and t: "tail rb < capacity"
  shows "uint (Size capacity rb) = spec_size (uint capacity) (uint (head rb)) (uint (tail rb))"
proof -
  have p: "(2::int) ^ LENGTH('w) = 2 * 2 ^ (LENGTH('w) - 1)"
    by (metis len_gt_0 power_minus_mult mult.commute)
  have cb: "uint capacity < 2 ^ (LENGTH('w) - 1)"
  proof -
    from c have "unat capacity < 2 ^ (LENGTH('w) - 1)" by (simp add: instantiable_def)
    then have "int (unat capacity) < int (2 ^ (LENGTH('w) - 1))" by (simp only: of_nat_less_iff)
    then show ?thesis by simp
  qed
  have hb: "uint (head rb) < uint capacity" "uint (tail rb) < uint capacity"
    using h t by (simp_all add: word_less_alt)
  have nn: "0 \<le> uint (head rb)" "0 \<le> uint (tail rb)" by simp_all
  have "uint (tail rb - head rb + capacity) = (uint (tail rb) - uint (head rb) + uint capacity) mod 2 ^ LENGTH('w)"
    by (simp add: uint_word_ariths mod_simps)
  also have "\<dots> = uint (tail rb) - uint (head rb) + uint capacity"
    using cb hb nn p by (intro mod_pos_pos_trivial) arith+
  finally show ?thesis
    by (simp add: Size_def spec_size_def uint_mod)
qed

text \<open>
  The upper bound of \<open>instantiable\<close> is used in \<open>uint_Size\<close>: with a capacity above half
  the range of \<^verbatim>\<open>size_t\<close> the sum \<^verbatim>\<open>tail - head + capacity\<close> itself would wrap. With a
  16-bit \<^verbatim>\<open>size_t\<close>, capacity 40000, read index 0 and write index 30000 the sum is 70000,
  which wraps to 4464. No buffer of such a capacity exists.
\<close>

lemma Size_above_half_range:
  "head rb = 0 \<Longrightarrow> tail rb = 30000 \<Longrightarrow>
   \<not> instantiable (40000 :: 16 word)
   \<and> tail rb < 40000
   \<and> uint (Size (40000 :: 16 word) rb) = 4464
   \<and> spec_size 40000 (uint (head rb)) (uint (tail rb)) = 30000"
  by (simp add: instantiable_def Size_def spec_size_def)

section \<open>The stored values\<close>

lemma Push_False: "Push capacity v rb = (False, rb') \<Longrightarrow> rb' = rb"
  by (simp add: Push_def Let_def split: if_splits)

lemma Pop_False: "Pop capacity x rb = (False, v, rb') \<Longrightarrow> rb' = rb \<and> v = x"
  by (simp add: Pop_def Let_def split: if_splits)

lemma rb_inv_pos: "rb_inv capacity rb \<Longrightarrow> 0 < capacity"
  by (auto simp: rb_inv_def word_less_nat_alt)

lemma Push_inv:
  assumes "rb_inv capacity rb" and "Push capacity v rb = (ok, rb')"
  shows "rb_inv capacity rb'"
proof -
  from assms(1) have "0 < capacity"
    by (auto simp: rb_inv_def word_less_nat_alt)
  with assms show ?thesis
    by (auto simp: Push_def Let_def rb_inv_def increment_less split: if_splits)
qed

lemma Pop_inv:
  assumes "rb_inv capacity rb" and "Pop capacity x rb = (ok, v, rb')"
  shows "rb_inv capacity rb'"
proof -
  from assms(1) have "0 < capacity"
    by (auto simp: rb_inv_def word_less_nat_alt)
  with assms show ?thesis
    by (auto simp: Pop_def Let_def rb_inv_def increment_less split: if_splits)
qed

lemma rb_inv_Reset: "rb_inv capacity rb \<Longrightarrow> rb_inv capacity (Reset rb)"
  by (frule rb_inv_pos) (simp add: rb_inv_def Reset_def)

lemma length_queued:
  assumes "rb_inv capacity rb"
  shows "length (queued rb) =
           (if unat (head rb) \<le> unat (tail rb) then unat (tail rb) - unat (head rb)
            else unat capacity - unat (head rb) + unat (tail rb))"
  using assms by (auto simp: queued_def Let_def rb_inv_def word_less_nat_alt)

lemma queued_Nil_iff:
  assumes "rb_inv capacity rb"
  shows "queued rb = [] \<longleftrightarrow> IsEmpty rb"
proof -
  have "queued rb = [] \<longleftrightarrow> length (queued rb) = 0" by simp
  also have "\<dots> \<longleftrightarrow> unat (head rb) = unat (tail rb)"
    using assms by (auto simp: length_queued [OF assms] rb_inv_def word_less_nat_alt)
  finally show ?thesis by (simp add: IsEmpty_def idx_eq_iff_unat)
qed

lemma queued_Push:
  assumes inv: "rb_inv capacity rb" and push: "Push capacity v rb = (True, rb')"
  shows "queued rb' = queued rb @ [v]"
proof -
  let ?h = "unat (head rb)" and ?t = "unat (tail rb)" and ?N = "unat capacity"
  from inv have len: "length (data rb) = ?N" and h: "?h < ?N" and t: "?t < ?N"
    and tw: "tail rb < capacity"
    by (simp_all add: rb_inv_def word_less_nat_alt)
  from push have nf: "increment capacity (tail rb) \<noteq> head rb"
    and rb': "rb' = rb\<lparr>data := (data rb)[?t := v], tail := increment capacity (tail rb)\<rparr>"
    by (simp_all add: Push_def Let_def split: if_splits)
  let ?t' = "unat (increment capacity (tail rb))"
  have t': "?t' = (if ?t + 1 = ?N then 0 else ?t + 1)"
    by (rule unat_increment [OF tw])
  from nf have ne: "?t' \<noteq> ?h" by (simp add: idx_eq_iff_unat)
  have upd: "take (Suc ?t) ((data rb)[?t := v]) = take ?t (data rb) @ [v]"
    using t len by (simp add: take_Suc_conv_app_nth)
  show ?thesis
  proof (cases "?h \<le> ?t")
    case True
    show ?thesis
    proof (cases "?t + 1 = ?N")
      case wrap: True
      with t' ne have "0 < ?h" and "?t' = 0" by simp_all
      moreover have "(data rb)[?t := v] = take ?t (data rb) @ [v]"
        using upd wrap len by simp
      ultimately show ?thesis
        using True len t by (simp add: queued_def rb' Let_def)
    next
      case False
      with t' have "?t' = Suc ?t" by simp
      then show ?thesis
        using True upd len t by (simp add: queued_def rb' Let_def)
    qed
  next
    case False
    then have "?t + 1 \<noteq> ?N" using h by arith
    with t' have "?t' = Suc ?t" by simp
    with ne False have "Suc ?t < ?h" by arith
    then show ?thesis
      using False \<open>?t' = Suc ?t\<close> upd len t by (simp add: queued_def rb' Let_def)
  qed
qed

lemma queued_Pop:
  assumes inv: "rb_inv capacity rb" and pop: "Pop capacity x rb = (True, v, rb')"
  shows "queued rb = v # queued rb'"
proof -
  let ?h = "unat (head rb)" and ?t = "unat (tail rb)" and ?N = "unat capacity"
  from inv have len: "length (data rb) = ?N" and h: "?h < ?N" and t: "?t < ?N"
    and hw: "head rb < capacity"
    by (simp_all add: rb_inv_def word_less_nat_alt)
  from pop have ne: "head rb \<noteq> tail rb" and v: "v = data rb ! ?h"
    and rb': "rb' = rb\<lparr>head := increment capacity (head rb)\<rparr>"
    by (simp_all add: Pop_def Let_def split: if_splits)
  let ?h' = "unat (increment capacity (head rb))"
  have h': "?h' = (if ?h + 1 = ?N then 0 else ?h + 1)"
    by (rule unat_increment [OF hw])
  from ne have neq: "?h \<noteq> ?t" by (simp add: idx_eq_iff_unat)
  show ?thesis
  proof (cases "?h \<le> ?t")
    case True
    with neq have lt: "?h < ?t" by simp
    with t have "?h + 1 \<noteq> ?N" by arith
    with h' have "?h' = Suc ?h" by simp
    moreover have "drop ?h (take ?t (data rb)) = data rb ! ?h # drop (Suc ?h) (take ?t (data rb))"
      using lt t len Cons_nth_drop_Suc [of ?h "take ?t (data rb)", symmetric] by simp
    ultimately show ?thesis
      using True lt by (simp add: queued_def rb' Let_def v)
  next
    case False
    have dr: "drop ?h (data rb) = data rb ! ?h # drop (Suc ?h) (data rb)"
      using h len by (simp add: Cons_nth_drop_Suc)
    show ?thesis
    proof (cases "?h + 1 = ?N")
      case True
      with h' have "?h' = 0" by simp
      moreover from True len have "drop (Suc ?h) (data rb) = []" by simp
      ultimately show ?thesis
        using False dr by (simp add: queued_def rb' Let_def v)
    next
      case nw: False
      with h' have "?h' = Suc ?h" by simp
      then show ?thesis
        using False dr by (simp add: queued_def rb' Let_def v)
    qed
  qed
qed

lemma unat_Size:
  fixes capacity :: "'w::len word"
  assumes c: "instantiable capacity" and inv: "rb_inv capacity rb"
  shows "unat (Size capacity rb) = length (queued rb)"
proof -
  let ?h = "uint (head rb)" and ?t = "uint (tail rb)" and ?N = "uint capacity"
  from inv have h: "head rb < capacity" and t: "tail rb < capacity"
    by (simp_all add: rb_inv_def)
  then have b: "?h < ?N" "?t < ?N" "0 \<le> ?h" "0 \<le> ?t"
    by (simp_all add: word_less_alt)
  have "uint (Size capacity rb) = (?t - ?h + ?N) mod ?N"
    using uint_Size [OF c h t] by (simp add: spec_size_def)
  also have "\<dots> = (if ?h \<le> ?t then ?t - ?h else ?N - ?h + ?t)"
  proof (cases "?h \<le> ?t")
    case True
    then have "(?t - ?h + ?N) mod ?N = (?t - ?h) mod ?N" by simp
    also have "\<dots> = ?t - ?h" using True b by (intro mod_pos_pos_trivial) arith+
    finally show ?thesis using True by simp
  next
    case False
    then have "(?t - ?h + ?N) mod ?N = ?t - ?h + ?N"
      using b by (intro mod_pos_pos_trivial) arith+
    then show ?thesis using False by simp
  qed
  finally have "uint (Size capacity rb) = (if ?h \<le> ?t then ?t - ?h else ?N - ?h + ?t)" .
  then have eq: "int (unat (Size capacity rb)) =
      (if int (unat (head rb)) \<le> int (unat (tail rb))
       then int (unat (tail rb)) - int (unat (head rb))
       else int (unat capacity) - int (unat (head rb)) + int (unat (tail rb)))"
    by (simp only: uint_nat)
  from h t have "unat (head rb) < unat capacity" "unat (tail rb) < unat capacity"
    by (simp_all add: word_less_nat_alt)
  then have hn: "unat (head rb) \<le> unat capacity" by simp
  show ?thesis
  proof (cases "unat (head rb) \<le> unat (tail rb)")
    case True
    with eq have "int (unat (Size capacity rb)) = int (unat (tail rb) - unat (head rb))"
      by (simp only: of_nat_le_iff if_True of_nat_diff)
    then have "unat (Size capacity rb) = unat (tail rb) - unat (head rb)"
      by (simp only: of_nat_eq_iff)
    with True show ?thesis by (simp only: length_queued [OF inv] if_True)
  next
    case False
    with eq hn have "int (unat (Size capacity rb)) = int (unat capacity - unat (head rb) + unat (tail rb))"
      by (simp only: of_nat_le_iff if_False of_nat_diff of_nat_add)
    then have "unat (Size capacity rb) = unat capacity - unat (head rb) + unat (tail rb)"
      by (simp only: of_nat_eq_iff)
    with False show ?thesis by (simp only: length_queued [OF inv] if_False)
  qed
qed

lemma IsFull_iff_Size:
  fixes capacity :: "'w::len word"
  assumes c: "instantiable capacity" and inv: "rb_inv capacity rb"
  shows "IsFull capacity rb \<longleftrightarrow> Size capacity rb = capacity - 1"
proof -
  let ?h = "unat (head rb)" and ?t = "unat (tail rb)" and ?N = "unat capacity"
  from inv have h: "?h < ?N" and t: "?t < ?N" and tw: "tail rb < capacity"
    by (simp_all add: rb_inv_def word_less_nat_alt)
  have "IsFull capacity rb \<longleftrightarrow> (if ?t + 1 = ?N then 0 else ?t + 1) = ?h"
    by (simp add: IsFull_def idx_eq_iff_unat [of "increment capacity (tail rb)"] unat_increment [OF tw])
  also have "\<dots> \<longleftrightarrow> (if ?h \<le> ?t then ?t - ?h else ?N - ?h + ?t) = ?N - 1"
    using h t by (simp split: if_splits) arith
  also have "\<dots> \<longleftrightarrow> unat (Size capacity rb) = unat (capacity - 1)"
    by (simp only: unat_Size [OF c inv] length_queued [OF inv]
        unat_capacity_minus_1 [OF instantiable_pos [OF c]])
  finally show ?thesis by (simp only: idx_eq_iff_unat [symmetric])
qed

lemma IsFull_unat_Size:
  assumes c: "instantiable capacity" and inv: "rb_inv capacity rb"
  shows "IsFull capacity rb \<longleftrightarrow> unat (Size capacity rb) = unat capacity - 1"
  by (simp only: IsFull_iff_Size [OF c inv] idx_eq_iff_unat [of "Size capacity rb"]
      unat_capacity_minus_1 [OF instantiable_pos [OF c]])

lemma IsFull_data [simp]: "IsFull capacity (rb\<lparr>data := d\<rparr>) = IsFull capacity rb"
  by (simp add: IsFull_def)

lemma Size_data [simp]: "Size capacity (rb\<lparr>data := d\<rparr>) = Size capacity rb"
  by (simp add: Size_def)

section \<open>Call sequences\<close>

lemma run_Nil [simp]: "run capacity s [] = s"
  by (simp add: run_def)

lemma run_Cons [simp]: "run capacity s (c # calls) = run capacity (call_step capacity s c) calls"
  by (simp add: run_def)

lemma run_append: "run capacity s (xs @ ys) = run capacity (run capacity s xs) ys"
  by (simp add: run_def)

lemma accepted_Pop [simp]: "accepted (call_step capacity s CallPop) = accepted s"
  by (simp add: call_step.simps split: prod.splits)

lemma delivered_pushes:
  "delivered (run capacity s (map CallPush vs)) = delivered s"
  by (induction vs arbitrary: s) (simp_all add: call_step.simps split: prod.splits)

lemma no_reset_pushes: "CallReset \<notin> set (map CallPush vs)"
  by auto

lemma rb_inv_step:
  assumes "rb_inv capacity (buf s)"
  shows "rb_inv capacity (buf (call_step capacity s c))"
proof (cases c)
  case (CallPush v)
  with assms show ?thesis
    by (cases "Push capacity v (buf s)") (auto simp: call_step.simps dest: Push_inv)
next
  case CallPop
  with assms show ?thesis
    by (cases "Pop capacity (consumer_item s) (buf s)") (auto simp: call_step.simps dest: Pop_inv)
next
  case CallReset
  with assms show ?thesis by (simp add: call_step.simps rb_inv_Reset)
qed

lemma rb_inv_run:
  "rb_inv capacity (buf s) \<Longrightarrow> rb_inv capacity (buf (run capacity s calls))"
  by (induction calls arbitrary: s) (simp_all add: rb_inv_step)

lemma rb_inv_start:
  "0 < capacity \<Longrightarrow> length mem = unat capacity \<Longrightarrow> rb_inv capacity (buf (session_start mem x))"
  by (simp add: session_start_def rb_inv_def RingBuffer_new_def)

lemma range_step:
  assumes "0 < capacity" and "head (buf s) < capacity \<and> tail (buf s) < capacity"
  shows "head (buf (call_step capacity s c)) < capacity
       \<and> tail (buf (call_step capacity s c)) < capacity"
  using assms
  by (cases c) (auto simp: call_step.simps Push_def Pop_def Reset_def Let_def increment_less)

lemma range_run:
  assumes "0 < capacity"
  shows "head (buf s) < capacity \<and> tail (buf s) < capacity \<Longrightarrow>
         head (buf (run capacity s calls)) < capacity \<and> tail (buf (run capacity s calls)) < capacity"
proof (induction calls arbitrary: s)
  case Nil
  then show ?case by simp
next
  case (Cons c calls)
  from range_step [OF assms Cons.prems] show ?case
    by (simp add: Cons.IH)
qed

lemma run_capacity_1:
  "head (buf s) = 0 \<and> tail (buf s) = 0 \<and> accepted s = [] \<Longrightarrow>
   head (buf (run 1 s calls)) = 0 \<and> tail (buf (run 1 s calls)) = 0 \<and> accepted (run 1 s calls) = []"
proof (induction calls arbitrary: s)
  case Nil
  then show ?case by simp
next
  case (Cons c calls)
  from Cons.prems
  have "head (buf (call_step 1 s c)) = 0 \<and> tail (buf (call_step 1 s c)) = 0
      \<and> accepted (call_step 1 s c) = []"
    by (cases c) (simp_all add: call_step.simps Push_def Pop_def Reset_def increment_capacity_1)
  then show ?case by (simp add: Cons.IH)
qed

lemma fifo_inv_start:
  "0 < capacity \<Longrightarrow> length mem = unat capacity \<Longrightarrow> fifo_inv capacity (session_start mem x)"
  by (simp add: fifo_inv_def session_start_def rb_inv_def RingBuffer_new_def queued_def)

lemma fifo_inv_Push:
  assumes "fifo_inv capacity s"
  shows "fifo_inv capacity (call_step capacity s (CallPush v))"
proof (cases "Push capacity v (buf s)")
  case (Pair ok rb')
  with assms have inv': "rb_inv capacity rb'"
    by (auto simp: fifo_inv_def dest: Push_inv)
  show ?thesis
  proof (cases ok)
    case True
    with Pair assms have "queued rb' = queued (buf s) @ [v]"
      by (auto simp: fifo_inv_def intro: queued_Push)
    with Pair True inv' assms show ?thesis by (simp add: fifo_inv_def call_step.simps)
  next
    case False
    with Pair have "rb' = buf s" by (simp add: Push_False)
    with Pair False assms show ?thesis by (simp add: fifo_inv_def call_step.simps)
  qed
qed

lemma fifo_inv_Pop:
  assumes "fifo_inv capacity s"
  shows "fifo_inv capacity (call_step capacity s CallPop)"
proof (cases "Pop capacity (consumer_item s) (buf s)")
  case (fields ok v rb')
  with assms have inv': "rb_inv capacity rb'"
    by (auto simp: fifo_inv_def dest: Pop_inv)
  show ?thesis
  proof (cases ok)
    case True
    with fields assms have "queued (buf s) = v # queued rb'"
      by (auto simp: fifo_inv_def intro: queued_Pop)
    with fields True inv' assms show ?thesis by (simp add: fifo_inv_def call_step.simps)
  next
    case False
    with fields have "rb' = buf s" using Pop_False by fastforce
    with fields False assms show ?thesis by (simp add: fifo_inv_def call_step.simps)
  qed
qed

lemma fifo_inv_run:
  "fifo_inv capacity s \<Longrightarrow> CallReset \<notin> set calls \<Longrightarrow> fifo_inv capacity (run capacity s calls)"
proof (induction calls arbitrary: s)
  case Nil
  then show ?case by simp
next
  case (Cons c calls)
  from Cons.prems have "fifo_inv capacity (call_step capacity s c)"
    by (cases c) (simp_all only: fifo_inv_Push fifo_inv_Pop set_simps insert_iff de_Morgan_disj not_False_eq_True simp_thms)
  with Cons show ?case by simp
qed

lemma fifo_inv_count:
  "fifo_inv capacity s \<Longrightarrow> length (queued (buf s)) = length (accepted s) - length (delivered s)"
  by (simp add: fifo_inv_def)

lemma drain:
  "fifo_inv capacity s \<Longrightarrow> length (queued (buf s)) = n \<Longrightarrow>
   delivered (run capacity s (replicate n CallPop)) = accepted s
   \<and> accepted (run capacity s (replicate n CallPop)) = accepted s
   \<and> IsEmpty (buf (run capacity s (replicate n CallPop)))"
proof (induction n arbitrary: s)
  case 0
  then show ?case using queued_Nil_iff [of capacity "buf s"] by (auto simp: fifo_inv_def)
next
  case (Suc n)
  let ?s' = "call_step capacity s CallPop"
  from Suc.prems(1) have inv': "fifo_inv capacity ?s'" by (rule fifo_inv_Pop)
  from Suc.prems have "accepted s = delivered s @ queued (buf s)"
    by (simp add: fifo_inv_def)
  moreover from inv' have "accepted s = delivered ?s' @ queued (buf ?s')"
    by (simp add: fifo_inv_def)
  moreover from Suc.prems have "\<not> IsEmpty (buf s)"
    using queued_Nil_iff [of capacity "buf s"] by (auto simp: fifo_inv_def)
  then have "length (delivered ?s') = Suc (length (delivered s))"
    by (simp add: IsEmpty_def Pop_def Let_def call_step.simps)
  ultimately have "length (queued (buf ?s')) = n"
    using Suc.prems(2) by (metis length_append add_Suc_right add_Suc add_left_cancel)
  from Suc.IH [OF inv' this] show ?case by simp
qed

lemma Size_pending:
  assumes "instantiable capacity" and "fifo_inv capacity s"
  shows "length (delivered s) + unat (Size capacity (buf s)) = length (accepted s)"
  using assms unat_Size [of capacity "buf s"] by (simp add: fifo_inv_def)

lemma pushes_accepted:
  assumes c: "instantiable capacity" and inv: "fifo_inv capacity s"
    and e: "accepted s = []" "delivered s = []"
  shows "length vs \<le> unat capacity - 1 \<Longrightarrow> accepted (run capacity s (map CallPush vs)) = vs"
proof (induction vs rule: rev_induct)
  case Nil
  with e show ?case by simp
next
  case (snoc v vs)
  let ?s = "run capacity s (map CallPush vs)"
  from snoc have acc: "accepted ?s = vs" by simp
  from inv have inv': "fifo_inv capacity ?s"
    by (rule fifo_inv_run) (rule no_reset_pushes)
  have "unat (Size capacity (buf ?s)) = length vs"
    using Size_pending [OF c inv'] acc e by (simp add: delivered_pushes)
  with snoc.prems have "\<not> IsFull capacity (buf ?s)"
    using IsFull_unat_Size [OF c, of "buf ?s"] inv' by (simp add: fifo_inv_def)
  then have "accepted (call_step capacity ?s (CallPush v)) = accepted ?s @ [v]"
    by (simp add: call_step.simps IsFull_def Push_def Let_def)
  with acc show ?case by (simp add: run_append)
qed

lemma queued_Reset: "queued (Reset rb) = []"
  by (simp add: queued_def Reset_def)

lemma count_step_queued:
  assumes inv: "rb_inv capacity (buf s)"
  shows "count_step capacity s c (int (length (queued (buf s))))
           = int (length (queued (buf (call_step capacity s c))))"
proof (cases c)
  case (CallPush v)
  show ?thesis
  proof (cases "Push capacity v (buf s)")
    case (Pair ok rb')
    show ?thesis
    proof (cases ok)
      case True
      with Pair have "queued rb' = queued (buf s) @ [v]"
        using queued_Push [OF inv] by simp
      with Pair True CallPush show ?thesis
        by (simp add: count_step_def call_step.simps)
    next
      case False
      with Pair have "rb' = buf s" by (simp add: Push_False)
      with Pair False CallPush show ?thesis
        by (simp add: count_step_def call_step.simps)
    qed
  qed
next
  case CallPop
  show ?thesis
  proof (cases "Pop capacity (consumer_item s) (buf s)")
    case (fields ok v rb')
    show ?thesis
    proof (cases ok)
      case True
      with fields have "queued (buf s) = v # queued rb'"
        using queued_Pop [OF inv] by simp
      with fields True CallPop show ?thesis
        by (simp add: count_step_def call_step.simps)
    next
      case False
      with fields have "rb' = buf s" using Pop_False by fastforce
      with fields False CallPop show ?thesis
        by (simp add: count_step_def call_step.simps)
    qed
  qed
next
  case CallReset
  then show ?thesis
    by (simp add: count_step_def call_step.simps queued_Reset)
qed

lemma pending_queued:
  "rb_inv capacity (buf s) \<Longrightarrow>
   pending capacity s (int (length (queued (buf s)))) calls
     = int (length (queued (buf (run capacity s calls))))"
proof (induction calls arbitrary: s)
  case Nil
  then show ?case by simp
next
  case (Cons c calls)
  from Cons.prems have "rb_inv capacity (buf (call_step capacity s c))"
    by (rule rb_inv_step)
  from Cons.IH [OF this] show ?case
    by (simp add: count_step_queued [OF Cons.prems])
qed

lemma pending_Size:
  fixes capacity :: "'w::len word"
  assumes c: "instantiable capacity" and len: "length mem = unat capacity"
  shows "uint (Size capacity (buf (run capacity (session_start mem x) calls)))
           = pending capacity (session_start mem x) 0 calls"
proof -
  let ?s0 = "session_start mem x :: ('a, 'w) session"
  have inv0: "rb_inv capacity (buf ?s0)"
    by (rule rb_inv_start [OF instantiable_pos [OF c] len])
  have "queued (buf ?s0) = []"
    by (simp add: session_start_def RingBuffer_new_def queued_def)
  with pending_queued [OF inv0, of calls]
  have "pending capacity ?s0 0 calls = int (length (queued (buf (run capacity ?s0 calls))))"
    by simp
  also have "\<dots> = int (unat (Size capacity (buf (run capacity ?s0 calls))))"
    by (simp only: unat_Size [OF c rb_inv_run [OF inv0]])
  finally show ?thesis by (simp only: uint_nat)
qed

section \<open>The claims\<close>

subsection \<open>FIFO order\<close>

text \<open>
  C1. Take any sequence of \<^verbatim>\<open>Push\<close> and \<^verbatim>\<open>Pop\<close> calls, made one after the other on
  a freshly constructed buffer. The values delivered by the successful \<^verbatim>\<open>Pop\<close> calls
  are the values accepted by the successful \<^verbatim>\<open>Push\<close> calls, in the same order, and
  none is lost, duplicated or reordered: at every moment the accepted values are the
  delivered values followed by the values the buffer still holds, oldest first; when the
  buffer is empty the two sequences are equal; and popping once for every value still in
  the buffer makes them equal. Calls that return false add nothing to either sequence.
\<close>

theorem fifo_order:
  assumes "0 < capacity" and "length mem = unat capacity" and "CallReset \<notin> set calls"
    and "s = run capacity (session_start mem x) calls"
  shows "accepted s = delivered s @ queued (buf s)
       \<and> (IsEmpty (buf s) \<longrightarrow> delivered s = accepted s)
       \<and> delivered (run capacity s (replicate (length (accepted s) - length (delivered s)) CallPop))
           = accepted s"
proof -
  from assms have inv: "fifo_inv capacity s"
    by (simp add: fifo_inv_run fifo_inv_start)
  then have 1: "accepted s = delivered s @ queued (buf s)"
    by (simp add: fifo_inv_def)
  from inv have "IsEmpty (buf s) \<longrightarrow> queued (buf s) = []"
    using queued_Nil_iff [of capacity "buf s"] by (simp add: fifo_inv_def)
  with 1 have 2: "IsEmpty (buf s) \<longrightarrow> delivered s = accepted s" by simp
  from drain [OF inv fifo_inv_count [OF inv]] 1 2 show ?thesis by blast
qed

theorem fifo_order_witness:
  "0 < (4 :: 32 word) \<and> length [0, 0, 0, 0 :: int] = unat (4 :: 32 word)
   \<and> CallReset \<notin> set [CallPush 1, CallPush 2, CallPush 3, CallPush 4, CallPop, CallPush 5, CallPop :: int call]
   \<and> accepted (run (4 :: 32 word) (session_start [0, 0, 0, 0] 0)
         [CallPush 1, CallPush 2, CallPush 3, CallPush 4, CallPop, CallPush 5, CallPop])
       = [1, 2, 3, 5 :: int]
   \<and> delivered (run (4 :: 32 word) (session_start [0, 0, 0, 0] 0)
         [CallPush 1, CallPush 2, CallPush 3, CallPush 4, CallPop, CallPush 5, CallPop])
       = [1, 2 :: int]
   \<and> queued (buf (run (4 :: 32 word) (session_start [0, 0, 0, 0] 0)
         [CallPush 1, CallPush 2, CallPush 3, CallPush 4, CallPop, CallPush 5, CallPop]))
       = [3, 5 :: int]
   \<and> delivered (run (4 :: 32 word) (session_start [0, 0, 0, 0] 0)
         ([CallPush 1, CallPush 2, CallPush 3, CallPush 4, CallPop, CallPush 5, CallPop]
          @ [CallPop, CallPop]))
       = [1, 2, 3, 5 :: int]
   \<and> CallReset \<notin> set [CallPush 1, CallPop :: int call]
   \<and> IsEmpty (buf (run (4 :: 32 word) (session_start [0, 0, 0, 0] 0) [CallPush 1, CallPop :: int call]))
   \<and> delivered (run (4 :: 32 word) (session_start [0, 0, 0, 0] 0) [CallPush 1, CallPop :: int call])
       = [1]"
proof -
  let ?calls = "[CallPush 1, CallPush 2, CallPush 3, CallPush 4, CallPop, CallPush 5, CallPop :: int call]"
  let ?s = "run (4 :: 32 word) (session_start [0, 0, 0, 0] 0) ?calls"
  have c: "0 < (4 :: 32 word)" by simp
  have l: "length [0, 0, 0, 0 :: int] = unat (4 :: 32 word)" by simp
  have r: "CallReset \<notin> set ?calls" by simp
  have a: "accepted ?s = [1, 2, 3, 5]" by (simp add: exec_simps)
  have d: "delivered ?s = [1, 2]" by (simp add: exec_simps)
  note fifo = fifo_order [OF c l r refl, of 0]
  from fifo have "accepted ?s = delivered ?s @ queued (buf ?s)"
    by (elim conjE)
  then have q: "queued (buf ?s) = [3, 5]"
    by (simp only: a d) simp
  from fifo
  have "delivered (run 4 ?s (replicate (length (accepted ?s) - length (delivered ?s)) CallPop))
          = accepted ?s"
    by (elim conjE)
  then have dr: "delivered (run 4 ?s [CallPop, CallPop]) = [1, 2, 3, 5]"
    by (simp only: a d) (simp add: numeral_2_eq_2)
  let ?calls' = "[CallPush 1, CallPop :: int call]"
  let ?s' = "run (4 :: 32 word) (session_start [0, 0, 0, 0] 0) ?calls'"
  have r': "CallReset \<notin> set ?calls'" by simp
  have e': "IsEmpty (buf ?s')" by (simp add: exec_simps)
  have a': "accepted ?s' = [1]" by (simp add: exec_simps)
  from fifo_order [OF c l r' refl, of 0]
  have "IsEmpty (buf ?s') \<longrightarrow> delivered ?s' = accepted ?s'"
    by (elim conjE)
  with e' have "delivered ?s' = accepted ?s'" by (rule rev_mp)
  with a' have d': "delivered ?s' = [1]" by (simp only:)
  from dr have "delivered (run (4 :: 32 word) (session_start [0, 0, 0, 0] 0) (?calls @ [CallPop, CallPop]))
      = [1, 2, 3, 5]"
    by (simp only: run_append)
  with c l r a d q r' e' d' show ?thesis by (intro conjI)
qed

subsection \<open>Failing calls\<close>

text \<open>
  C2. In every state in which the buffer is full (the incremented write index equals the
  read index), \<^verbatim>\<open>Push\<close> returns false and the buffer after the call is the buffer
  before it: both indices and every slot are unchanged and the item is not stored.
\<close>

theorem Push_full_unchanged:
  "IsFull capacity rb \<Longrightarrow> Push capacity item rb = (False, rb)"
  by (simp add: IsFull_def Push_def)

theorem Push_full_unchanged_witness:
  "IsFull (4 :: 32 word) \<lparr>data = [1, 2, 3, 0 :: int], head = 0, tail = 3\<rparr>
   \<and> Push (4 :: 32 word) 4 \<lparr>data = [1, 2, 3, 0 :: int], head = 0, tail = 3\<rparr>
       = (False, \<lparr>data = [1, 2, 3, 0], head = 0, tail = 3\<rparr>)"
proof -
  have full: "IsFull (4 :: 32 word) \<lparr>data = [1, 2, 3, 0 :: int], head = 0, tail = 3\<rparr>"
    by (simp add: IsFull_def increment_def)
  from Push_full_unchanged [OF full, of 4] full show ?thesis
    by simp
qed

text \<open>
  C3. In every state in which the buffer is empty (read index equals write index),
  \<^verbatim>\<open>Pop\<close> returns false, the buffer is unchanged and the caller's \<^verbatim>\<open>item\<close> holds
  what it held before the call.
\<close>

theorem Pop_empty_unchanged:
  "IsEmpty rb \<Longrightarrow> Pop capacity item rb = (False, item, rb)"
  by (simp add: IsEmpty_def Pop_def)

theorem Pop_empty_unchanged_witness:
  "IsEmpty (RingBuffer_new [7, 7, 7, 7 :: int] :: (int, 32) RingBuffer)
   \<and> Pop (4 :: 32 word) 99 (RingBuffer_new [7, 7, 7, 7 :: int])
       = (False, 99, RingBuffer_new [7, 7, 7, 7])"
proof -
  have empty: "IsEmpty (RingBuffer_new [7, 7, 7, 7 :: int] :: (int, 32) RingBuffer)"
    by (simp add: IsEmpty_def RingBuffer_new_def)
  from Pop_empty_unchanged [OF empty, of 4 99] empty show ?thesis
    by simp
qed

subsection \<open>Occupancy\<close>

text \<open>
  C4. In every state reachable from the constructor by \<^verbatim>\<open>Push\<close>, \<^verbatim>\<open>Pop\<close> and
  \<^verbatim>\<open>Reset\<close> calls, \<^verbatim>\<open>Size\<close>, computed in wrapping \<^verbatim>\<open>size_t\<close> arithmetic, is
  \<open>(write_index - read_index + N) mod N\<close> computed over the integers, and it is the
  number of values pushed with success and not yet popped with success (\<^verbatim>\<open>Reset\<close>
  discards the values the buffer holds); where no \<^verbatim>\<open>Reset\<close> was called, that is the
  number of accepted values less the number of delivered ones. After \<open>k\<close> \<^verbatim>\<open>Push\<close>
  calls and no \<^verbatim>\<open>Pop\<close> on a fresh buffer, \<open>k \<le> N - 1\<close>, every call has succeeded
  and \<^verbatim>\<open>Size\<close> is \<open>k\<close>; at \<open>k = N - 1\<close> the buffer is full and the next
  \<^verbatim>\<open>Push\<close> returns false and changes nothing.
\<close>

theorem Size_counts:
  fixes capacity :: "'w::len word" and mem vs :: "'a list"
  assumes c: "instantiable capacity" and len: "length mem = unat capacity"
    and s: "s = run capacity (session_start mem x) calls"
  shows "uint (Size capacity (buf s))
           = spec_size (uint capacity) (uint (head (buf s))) (uint (tail (buf s)))
       \<and> uint (Size capacity (buf s)) = pending capacity (session_start mem x) 0 calls
       \<and> (CallReset \<notin> set calls \<longrightarrow>
            length (delivered s) + unat (Size capacity (buf s)) = length (accepted s))
       \<and> (calls = map CallPush vs \<and> length vs \<le> unat capacity - 1 \<longrightarrow>
            accepted s = vs \<and> unat (Size capacity (buf s)) = length vs)
       \<and> (calls = map CallPush vs \<and> length vs = unat capacity - 1 \<longrightarrow>
            IsFull capacity (buf s) \<and> Push capacity v (buf s) = (False, buf s))"
proof -
  note pos = instantiable_pos [OF c]
  let ?s0 = "session_start mem x :: ('a, 'w) session"
  have inv0: "fifo_inv capacity ?s0" by (rule fifo_inv_start [OF pos len])
  have inv: "rb_inv capacity (buf s)"
    unfolding s by (rule rb_inv_run [OF rb_inv_start [OF pos len]])
  then have 1: "uint (Size capacity (buf s))
           = spec_size (uint capacity) (uint (head (buf s))) (uint (tail (buf s)))"
    by (intro uint_Size [OF c]) (simp_all add: rb_inv_def)
  have 5: "uint (Size capacity (buf s)) = pending capacity ?s0 0 calls"
    unfolding s by (rule pending_Size [OF c len])
  have 2: "length (delivered s) + unat (Size capacity (buf s)) = length (accepted s)"
    if "CallReset \<notin> set calls"
    unfolding s by (rule Size_pending [OF c fifo_inv_run [OF inv0 that]])
  have 3: "accepted s = vs \<and> unat (Size capacity (buf s)) = length vs"
    if "calls = map CallPush vs" and "length vs \<le> unat capacity - 1"
  proof -
    have "accepted s = vs"
      unfolding s that(1)
      by (rule pushes_accepted [OF c inv0 _ _ that(2)]) (simp_all add: session_start_def)
    moreover have "delivered s = []"
      unfolding s that(1) by (simp add: delivered_pushes session_start_def)
    ultimately show ?thesis
      using 2 that(1) no_reset_pushes [of vs] by simp
  qed
  have 4: "IsFull capacity (buf s) \<and> Push capacity v (buf s) = (False, buf s)"
    if "calls = map CallPush vs" and "length vs = unat capacity - 1"
  proof -
    from 3 [OF that(1)] that(2) have "unat (Size capacity (buf s)) = unat capacity - 1"
      by simp
    then have "IsFull capacity (buf s)"
      by (simp only: IsFull_unat_Size [OF c inv])
    then show ?thesis by (simp add: IsFull_def Push_def)
  qed
  from 1 5 2 3 4 show ?thesis by blast
qed


theorem Size_counts_witness:
  "instantiable (4 :: 32 word) \<and> length [0, 0, 0, 0 :: int] = unat (4 :: 32 word)
   \<and> CallReset \<notin> set (map CallPush [1, 2, 3 :: int])
   \<and> length [1, 2, 3 :: int] = unat (4 :: 32 word) - 1
   \<and> uint (Size 4 (buf (run (4 :: 32 word) (session_start [0, 0, 0, 0] 0)
         (map CallPush [1, 2, 3 :: int])))) = spec_size 4 0 3
   \<and> spec_size 4 0 3 = 3
   \<and> accepted (run (4 :: 32 word) (session_start [0, 0, 0, 0] 0)
         (map CallPush [1, 2, 3 :: int])) = [1, 2, 3]
   \<and> IsFull 4 (buf (run (4 :: 32 word) (session_start [0, 0, 0, 0] 0)
         (map CallPush [1, 2, 3 :: int])))
   \<and> fst (Push 4 4 (buf (run (4 :: 32 word) (session_start [0, 0, 0, 0] 0)
         (map CallPush [1, 2, 3 :: int])))) = False
   \<and> CallReset \<notin> set [CallPush 1, CallPush 2, CallPush 3, CallPop, CallPop, CallPush 4, CallPush 5 :: int call]
   \<and> head (buf (run (4 :: 32 word) (session_start [0, 0, 0, 0] 0)
         [CallPush 1, CallPush 2, CallPush 3, CallPop, CallPop, CallPush 4, CallPush 5 :: int call])) = 2
   \<and> tail (buf (run (4 :: 32 word) (session_start [0, 0, 0, 0] 0)
         [CallPush 1, CallPush 2, CallPush 3, CallPop, CallPop, CallPush 4, CallPush 5 :: int call])) = 1
   \<and> uint (Size 4 (buf (run (4 :: 32 word) (session_start [0, 0, 0, 0] 0)
         [CallPush 1, CallPush 2, CallPush 3, CallPop, CallPop, CallPush 4, CallPush 5 :: int call])))
       = spec_size 4 2 1
   \<and> spec_size 4 2 1 = 3
   \<and> pending (4 :: 32 word) (session_start [0, 0, 0, 0] 0) 0
         [CallPush 1, CallPush 2, CallPush 3, CallPop, CallPop, CallPush 4, CallPush 5 :: int call] = 3
   \<and> length (delivered (run (4 :: 32 word) (session_start [0, 0, 0, 0] 0)
         [CallPush 1, CallPush 2, CallPush 3, CallPop, CallPop, CallPush 4, CallPush 5 :: int call])) + 3
       = length (accepted (run (4 :: 32 word) (session_start [0, 0, 0, 0] 0)
         [CallPush 1, CallPush 2, CallPush 3, CallPop, CallPop, CallPush 4, CallPush 5 :: int call]))
   \<and> uint (Size 4 (buf (run (4 :: 32 word) (session_start [0, 0, 0, 0] 0)
         [CallPush 1, CallPush 2, CallReset, CallPush 3 :: int call]))) = 1
   \<and> pending (4 :: 32 word) (session_start [0, 0, 0, 0] 0) 0
         [CallPush 1, CallPush 2, CallReset, CallPush 3 :: int call] = 1"
proof -
  let ?s = "run (4 :: 32 word) (session_start [0, 0, 0, 0] 0) (map CallPush [1, 2, 3 :: int])"
  have c: "instantiable (4 :: 32 word)" by (simp add: instantiable_def)
  have l: "length [0, 0, 0, 0 :: int] = unat (4 :: 32 word)" by simp
  have r: "CallReset \<notin> set (map CallPush [1, 2, 3 :: int])" by simp
  have k: "length [1, 2, 3 :: int] = unat (4 :: 32 word) - 1" by simp
  have ix: "head (buf ?s) = 0" "tail (buf ?s) = 3" by (simp_all add: exec_simps)
  note th = Size_counts [OF c l refl, of 0 "map CallPush [1, 2, 3]" "[1, 2, 3]" 4]
  from th have "uint (Size 4 (buf ?s))
      = spec_size (uint (4 :: 32 word)) (uint (head (buf ?s))) (uint (tail (buf ?s)))"
    by (elim conjE)
  then have p1: "uint (Size 4 (buf ?s)) = spec_size 4 0 3"
    by (simp only: ix) simp
  from th have "map CallPush [1, 2, 3] = map CallPush [1, 2, 3 :: int]
      \<and> length [1, 2, 3 :: int] \<le> unat (4 :: 32 word) - 1 \<longrightarrow>
      accepted ?s = [1, 2, 3] \<and> unat (Size 4 (buf ?s)) = length [1, 2, 3 :: int]"
    by (elim conjE)
  with k have p2: "accepted ?s = [1, 2, 3]" by simp
  from th have "map CallPush [1, 2, 3] = map CallPush [1, 2, 3 :: int]
      \<and> length [1, 2, 3 :: int] = unat (4 :: 32 word) - 1 \<longrightarrow>
      IsFull 4 (buf ?s) \<and> Push 4 4 (buf ?s) = (False, buf ?s)"
    by (elim conjE)
  with k have "IsFull 4 (buf ?s) \<and> Push 4 4 (buf ?s) = (False, buf ?s)" by simp
  then have p3: "IsFull 4 (buf ?s)" and p4: "fst (Push 4 4 (buf ?s)) = False"
    by simp_all
  have p5: "spec_size 4 0 3 = 3" by (simp add: spec_size_def)
  let ?calls = "[CallPush 1, CallPush 2, CallPush 3, CallPop, CallPop, CallPush 4, CallPush 5 :: int call]"
  let ?t = "run (4 :: 32 word) (session_start [0, 0, 0, 0] 0) ?calls"
  have r': "CallReset \<notin> set ?calls" by simp
  have h': "head (buf ?t) = 2" and t': "tail (buf ?t) = 1" by (simp_all add: exec_simps)
  have q5: "spec_size 4 2 1 = 3" by (simp add: spec_size_def)
  note th' = Size_counts [OF c l refl, of 0 ?calls "[]" 0]
  from th' have "uint (Size 4 (buf ?t))
      = spec_size (uint (4 :: 32 word)) (uint (head (buf ?t))) (uint (tail (buf ?t)))"
    by (elim conjE)
  then have q1: "uint (Size 4 (buf ?t)) = spec_size 4 2 1"
    by (simp only: h' t') simp
  from th' have e: "uint (Size 4 (buf ?t)) = pending (4 :: 32 word) (session_start [0, 0, 0, 0] 0) 0 ?calls"
    by (elim conjE)
  with q1 q5 have q2: "pending (4 :: 32 word) (session_start [0, 0, 0, 0] 0) 0 ?calls = 3"
    by (simp only:)
  from q1 q5 have "uint (Size 4 (buf ?t)) = 3" by (simp only:)
  then have "int (unat (Size 4 (buf ?t))) = 3" by (simp only: uint_nat)
  then have "unat (Size 4 (buf ?t)) = 3" by arith
  moreover from th' have "CallReset \<notin> set ?calls \<longrightarrow>
      length (delivered ?t) + unat (Size 4 (buf ?t)) = length (accepted ?t)"
    by (elim conjE)
  ultimately have q3: "length (delivered ?t) + 3 = length (accepted ?t)"
    using r' by (simp only: simp_thms)
  let ?calls'' = "[CallPush 1, CallPush 2, CallReset, CallPush 3 :: int call]"
  let ?u = "run (4 :: 32 word) (session_start [0, 0, 0, 0] 0) ?calls''"
  have u1: "pending (4 :: 32 word) (session_start [0, 0, 0, 0] 0) 0 ?calls'' = 1"
    by (simp add: count_simps)
  from Size_counts [OF c l refl, of 0 ?calls'' "[]" 0]
  have "uint (Size 4 (buf ?u)) = pending (4 :: 32 word) (session_start [0, 0, 0, 0] 0) 0 ?calls''"
    by (elim conjE)
  with u1 have u2: "uint (Size 4 (buf ?u)) = 1" by (simp only:)
  from c l r k p1 p5 p2 p3 p4 r' h' t' q1 q5 q2 q3 u2 u1 show ?thesis
    by (intro conjI)
qed

text \<open>
  C7. In every state with both indices below \<^verbatim>\<open>capacity\<close>, the two ways of testing
  fullness agree: \<^verbatim>\<open>IsFull()\<close> (the incremented write index equals the read index)
  holds exactly when \<^verbatim>\<open>Size() == capacity - 1\<close>, also when the write index is below
  the read index.
\<close>

theorem IsFull_agrees_with_Size:
  fixes capacity :: "'w::len word"
  assumes "instantiable capacity" and "head rb < capacity" and "tail rb < capacity"
  shows "IsFull capacity rb \<longleftrightarrow> Size capacity rb = capacity - 1"
proof -
  let ?rb = "rb\<lparr>data := replicate (unat capacity) (hd (data rb))\<rparr>"
  from assms have "rb_inv capacity ?rb" by (simp add: rb_inv_def)
  from IsFull_iff_Size [OF assms(1) this] show ?thesis by simp
qed

theorem IsFull_agrees_with_Size_witness:
  "instantiable (4 :: 32 word)
   \<and> head \<lparr>data = [1, 2, 3, 4 :: int], head = 2 :: 32 word, tail = 1\<rparr> < 4
   \<and> tail \<lparr>data = [1, 2, 3, 4 :: int], head = 2 :: 32 word, tail = 1\<rparr> < 4
   \<and> IsFull 4 \<lparr>data = [1, 2, 3, 4 :: int], head = 2 :: 32 word, tail = 1\<rparr>
   \<and> Size 4 \<lparr>data = [1, 2, 3, 4 :: int], head = 2 :: 32 word, tail = 1\<rparr> = 4 - 1"
proof -
  let ?rb = "\<lparr>data = [1, 2, 3, 4 :: int], head = 2 :: 32 word, tail = 1\<rparr>"
  have c: "instantiable (4 :: 32 word)" by (simp add: instantiable_def)
  have h: "head ?rb < 4" and t: "tail ?rb < 4" by simp_all
  have f: "IsFull 4 ?rb" by (simp add: IsFull_def increment_def)
  from IsFull_agrees_with_Size [OF c h t] f c h t show ?thesis by simp
qed

subsection \<open>Construction and reset\<close>

text \<open>
  C5 as stated: for every positive capacity a freshly constructed buffer is empty, is not
  full, has size 0, and its first \<^verbatim>\<open>Pop\<close> returns false. With capacity 1 the fresh
  buffer is full: \<^verbatim>\<open>increment(0)\<close> is \<open>(0 + 1) mod 1 = 0\<close>, the read index.
\<close>

theorem fresh_buffer_counterexample:
  "0 < (1 :: 32 word)
   \<and> \<not> (IsEmpty (RingBuffer_new [0 :: int] :: (int, 32) RingBuffer)
        \<and> \<not> IsFull (1 :: 32 word) (RingBuffer_new [0 :: int])
        \<and> Size (1 :: 32 word) (RingBuffer_new [0 :: int]) = 0
        \<and> \<not> fst (Pop (1 :: 32 word) 0 (RingBuffer_new [0 :: int])))"
  by (simp add: IsFull_def increment_def RingBuffer_new_def)

text \<open>
  C5, amended. For every positive capacity a freshly constructed buffer is empty, has
  size 0, and its first \<^verbatim>\<open>Pop\<close> returns false, leaving the buffer and the caller's
  item as they were; it is not full when the capacity is at least 2, and it is full when
  the capacity is 1.
\<close>

theorem fresh_buffer:
  fixes capacity :: "'w::len word"
  assumes "0 < capacity" and "rb = RingBuffer_new mem"
  shows "IsEmpty rb \<and> (IsFull capacity rb \<longleftrightarrow> capacity = 1)
       \<and> Size capacity rb = 0 \<and> Pop capacity x rb = (False, x, rb)"
proof -
  have "(1 mod capacity = 0) = (capacity = 1)"
    by (auto simp: mod_word_one)
  then show ?thesis
    using assms by (simp add: IsEmpty_def IsFull_def Size_def Pop_def RingBuffer_new_def increment_def)
qed

theorem fresh_buffer_witness:
  "0 < (4 :: 32 word)
   \<and> IsEmpty (RingBuffer_new [0, 0, 0, 0 :: int] :: (int, 32) RingBuffer)
   \<and> \<not> IsFull (4 :: 32 word) (RingBuffer_new [0, 0, 0, 0 :: int])
   \<and> Size (4 :: 32 word) (RingBuffer_new [0, 0, 0, 0 :: int]) = 0
   \<and> Pop (4 :: 32 word) 9 (RingBuffer_new [0, 0, 0, 0 :: int])
       = (False, 9, RingBuffer_new [0, 0, 0, 0])"
proof -
  have c: "0 < (4 :: 32 word)" by simp
  from fresh_buffer [OF c refl, of "[0, 0, 0, 0 :: int]" 9] c show ?thesis by simp
qed

text \<open>
  C6. From every state, whatever the indices and the stored values, \<^verbatim>\<open>Reset\<close> gives
  a state in which \<^verbatim>\<open>IsEmpty()\<close> holds, \<^verbatim>\<open>Size()\<close> is 0 and a following
  \<^verbatim>\<open>Pop\<close> returns false.
\<close>

theorem Reset_gives_empty:
  "IsEmpty (Reset rb) \<and> Size capacity (Reset rb) = 0
   \<and> Pop capacity x (Reset rb) = (False, x, Reset rb)"
  by (simp add: IsEmpty_def Size_def Pop_def Reset_def)

subsection \<open>Index range\<close>

text \<open>
  C8. The constructor puts both indices in range and every operation keeps them there:
  in every state reached from a freshly constructed buffer by \<^verbatim>\<open>Push\<close>, \<^verbatim>\<open>Pop\<close>
  and \<^verbatim>\<open>Reset\<close> calls, \<open>0 \<le> write_index < N\<close> and \<open>0 \<le> read_index < N\<close>, and
  \<^verbatim>\<open>Size()\<close> is never negative and never above \<open>N - 1\<close>.
\<close>

theorem indices_stay_in_range:
  fixes capacity :: "'w::len word"
  assumes "0 < capacity" and "s = run capacity (session_start mem x) calls"
  shows "0 \<le> uint (head (buf s)) \<and> uint (head (buf s)) < uint capacity
       \<and> 0 \<le> uint (tail (buf s)) \<and> uint (tail (buf s)) < uint capacity
       \<and> 0 \<le> uint (Size capacity (buf s)) \<and> uint (Size capacity (buf s)) \<le> uint capacity - 1"
proof -
  have "head (buf (session_start mem x :: ('a, 'w) session)) < capacity
      \<and> tail (buf (session_start mem x :: ('a, 'w) session)) < capacity"
    using assms(1) by (simp add: session_start_def RingBuffer_new_def)
  from range_run [OF assms(1) this, of calls]
  have "uint (head (buf s)) < uint capacity \<and> uint (tail (buf s)) < uint capacity"
    by (simp add: assms(2) word_less_alt)
  moreover have "Size capacity (buf s) < capacity"
    using assms(1) by (simp add: Size_def word_mod_less_divisor)
  then have "uint (Size capacity (buf s)) < uint capacity"
    by (simp add: word_less_alt)
  ultimately show ?thesis by simp
qed

theorem indices_stay_in_range_witness:
  "0 < (4 :: 32 word)
   \<and> uint (head (buf (run (4 :: 32 word) (session_start [0, 0, 0, 0 :: int] 0)
        [CallPush 1, CallPush 2, CallPop, CallPop, CallPush 3, CallPush 4, CallPush 5, CallReset, CallPush 6]))) < 4
   \<and> uint (tail (buf (run (4 :: 32 word) (session_start [0, 0, 0, 0 :: int] 0)
        [CallPush 1, CallPush 2, CallPop, CallPop, CallPush 3, CallPush 4, CallPush 5, CallReset, CallPush 6]))) < 4
   \<and> uint (Size 4 (buf (run (4 :: 32 word) (session_start [0, 0, 0, 0 :: int] 0)
        [CallPush 1, CallPush 2, CallPop, CallPop, CallPush 3, CallPush 4, CallPush 5, CallReset, CallPush 6]))) \<le> 3"
proof -
  have c: "0 < (4 :: 32 word)" by simp
  from indices_stay_in_range [OF c refl, of "[0, 0, 0, 0 :: int]" 0
      "[CallPush 1, CallPush 2, CallPop, CallPop, CallPush 3, CallPush 4, CallPush 5, CallReset, CallPush 6]"]
    c show ?thesis by simp
qed

subsection \<open>Capacity 1\<close>

text \<open>
  C10. With capacity 1, \<^verbatim>\<open>increment\<close> maps every index to 0, so a freshly constructed
  buffer is full and empty at once, and in every state reached from it by any calls
  \<^verbatim>\<open>Push\<close> returns false and changes nothing: no value is ever accepted.
\<close>

theorem capacity_one_stores_nothing:
  fixes mem :: "'a list" and idx :: "'w::len word"
  shows "increment 1 idx = 0
       \<and> IsFull 1 (RingBuffer_new mem :: ('a, 'w) RingBuffer)
       \<and> IsEmpty (RingBuffer_new mem :: ('a, 'w) RingBuffer)
       \<and> Push 1 v (buf (run 1 (session_start mem x :: ('a, 'w) session) calls))
           = (False, buf (run 1 (session_start mem x) calls))
       \<and> accepted (run 1 (session_start mem x :: ('a, 'w) session) calls) = []"
proof -
  let ?s = "run 1 (session_start mem x :: ('a, 'w) session) calls"
  have "head (buf ?s) = 0 \<and> tail (buf ?s) = 0 \<and> accepted ?s = []"
    by (rule run_capacity_1) (simp add: session_start_def RingBuffer_new_def)
  then show ?thesis
    by (simp add: increment_capacity_1 IsFull_def IsEmpty_def RingBuffer_new_def Push_def)
qed

end
